theory Spec2Isabelle
  imports Main
begin

section \<open>Bytes, Python builtins and the operating system\<close>

text \<open>
  \<^verbatim>\<open>dedup.py\<close> works on \<^verbatim>\<open>bytes\<close>: paths are encoded with \<^verbatim>\<open>os.fsencode\<close>, digests are
  raw bytes, and the cache file is read and written in binary mode. A byte is a
  \<^typ>\<open>char\<close> (eight bits), a \<^verbatim>\<open>bytes\<close> object a \<^typ>\<open>string\<close>.
\<close>

type_synonym bytes = string

definition NL :: char where
  "NL = CHR 0x0A"

definition COLON :: char where
  "COLON = CHR '':''"

text \<open>The module constants.\<close>

definition HEADER :: bytes where
  "HEADER = ''dedup.py 0.0 md5''"

definition CHUNK_SIZE :: nat where
  "CHUNK_SIZE = 256 * 1024"

text \<open>\<^verbatim>\<open>MAX_CACHE_AGE = datetime.timedelta(hours=1)\<close>, in seconds.\<close>

definition MAX_CACHE_AGE :: int where
  "MAX_CACHE_AGE = 3600"

text \<open>The exceptions that the program can meet. \<^verbatim>\<open>SystemExit\<close> carries the exit status.\<close>

datatype error =
    FileNotFoundError
  | IsADirectoryError
  | OSError
  | ValueError
  | BinasciiError
  | OverflowError
  | EOFError
  | KeyError
  | UnicodeEncodeError
  | SystemExit int

subsection \<open>\<^verbatim>\<open>binascii.hexlify\<close> and \<^verbatim>\<open>binascii.unhexlify\<close>\<close>

definition hexdigit :: "nat \<Rightarrow> char" where
  "hexdigit d = ''0123456789abcdef'' ! d"

definition hexlify :: "bytes \<Rightarrow> bytes" where
  "hexlify bs =
     concat (map (\<lambda>c. [hexdigit (of_char c div 16), hexdigit (of_char c mod 16)]) bs)"

definition unhexdigit :: "char \<Rightarrow> nat option" where
  "unhexdigit c =
     (let n = (of_char c :: nat) in
      if 48 \<le> n \<and> n \<le> 57 then Some (n - 48)
      else if 97 \<le> n \<and> n \<le> 102 then Some (n - 87)
      else if 65 \<le> n \<and> n \<le> 70 then Some (n - 55)
      else None)"

fun unhexlify :: "bytes \<Rightarrow> error + bytes" where
  "unhexlify [] = Inr []"
| "unhexlify [a] = Inl BinasciiError"
| "unhexlify (a # b # r) =
     (case (unhexdigit a, unhexdigit b) of
        (Some h, Some l) \<Rightarrow>
          (case unhexlify r of
             Inl e \<Rightarrow> Inl e
           | Inr bs \<Rightarrow> Inr (char_of (16 * h + l) # bs))
      | _ \<Rightarrow> Inl BinasciiError)"

subsection \<open>\<^verbatim>\<open>b'%i' % n\<close> and \<^verbatim>\<open>int(b)\<close>\<close>

definition digit :: "nat \<Rightarrow> char" where
  "digit d = char_of (48 + d)"

definition is_digit :: "char \<Rightarrow> bool" where
  "is_digit c = (48 \<le> (of_char c :: nat) \<and> (of_char c :: nat) \<le> 57)"

definition digit_val :: "char \<Rightarrow> nat" where
  "digit_val c = of_char c - 48"

function dec_digits :: "nat \<Rightarrow> bytes" where
  "dec_digits n = (if n < 10 then [digit n] else dec_digits (n div 10) @ [digit (n mod 10)])"
  by pat_completeness auto
termination
  by (relation "measure id") auto

declare dec_digits.simps [simp del]

text \<open>\<^verbatim>\<open>b'%i' % n\<close>: the decimal digits, with a minus sign for a negative number.\<close>

definition fmt_i :: "int \<Rightarrow> bytes" where
  "fmt_i i = (if i < 0 then CHR ''-'' # dec_digits (nat (- i)) else dec_digits (nat i))"

text \<open>
  \<^verbatim>\<open>int(b)\<close> on bytes: ASCII whitespace around the number is ignored, a sign may come
  first, and single underscores may separate digits; anything else raises
  \<^verbatim>\<open>ValueError\<close>.
\<close>

definition is_space :: "char \<Rightarrow> bool" where
  "is_space c = ((of_char c :: nat) = 32 \<or> (9 \<le> (of_char c :: nat) \<and> (of_char c :: nat) \<le> 13))"

definition strip :: "bytes \<Rightarrow> bytes" where
  "strip bs = rev (dropWhile is_space (rev (dropWhile is_space bs)))"

fun dec_value :: "nat \<Rightarrow> bytes \<Rightarrow> nat option" where
  "dec_value acc [] = Some acc"
| "dec_value acc (c # cs) =
     (if is_digit c then dec_value (10 * acc + digit_val c) cs
      else if c = CHR ''_'' then
        (case cs of
           [] \<Rightarrow> None
         | d # ds \<Rightarrow> if is_digit d then dec_value (10 * acc + digit_val d) ds else None)
      else None)"

definition parse_nat :: "bytes \<Rightarrow> nat option" where
  "parse_nat bs =
     (case bs of
        [] \<Rightarrow> None
      | c # cs \<Rightarrow> if is_digit c then dec_value (digit_val c) cs else None)"

definition py_int :: "bytes \<Rightarrow> error + int" where
  "py_int bs =
     (case strip bs of
        [] \<Rightarrow> Inl ValueError
      | c # cs \<Rightarrow>
          if c = CHR ''-'' then
            (case parse_nat cs of None \<Rightarrow> Inl ValueError | Some n \<Rightarrow> Inr (- int n))
          else if c = CHR ''+'' then
            (case parse_nat cs of None \<Rightarrow> Inl ValueError | Some n \<Rightarrow> Inr (int n))
          else
            (case parse_nat (c # cs) of None \<Rightarrow> Inl ValueError | Some n \<Rightarrow> Inr (int n)))"

subsection \<open>Lines, \<^verbatim>\<open>rstrip\<close> and \<^verbatim>\<open>split\<close>\<close>

text \<open>
  A binary file read line by line: every line ends with its newline byte, except
  possibly the last one. \<^verbatim>\<open>fp.readline()\<close> takes the next line and returns \<^verbatim>\<open>b''\<close> at
  the end of the file; \<^verbatim>\<open>for line in fp\<close> takes all that remain.
\<close>

fun file_lines :: "bytes \<Rightarrow> bytes list" where
  "file_lines [] = []"
| "file_lines (c # cs) =
     (if c = NL then [c] # file_lines cs
      else (case file_lines cs of [] \<Rightarrow> [[c]] | l # ls \<Rightarrow> (c # l) # ls))"

definition readline :: "bytes list \<Rightarrow> bytes \<times> bytes list" where
  "readline ls = (case ls of [] \<Rightarrow> ([], []) | l # rest \<Rightarrow> (l, rest))"

text \<open>\<^verbatim>\<open>line.rstrip(b'\n')\<close> removes every trailing newline byte.\<close>

definition rstrip_nl :: "bytes \<Rightarrow> bytes" where
  "rstrip_nl bs = rev (dropWhile (\<lambda>c. c = NL) (rev bs))"

text \<open>\<^verbatim>\<open>line.split(b':', maxsplit)\<close>.\<close>

fun split_colon :: "nat \<Rightarrow> bytes \<Rightarrow> bytes list" where
  "split_colon 0 bs = [bs]"
| "split_colon (Suc n) bs =
     (case dropWhile (\<lambda>c. c \<noteq> COLON) bs of
        [] \<Rightarrow> [bs]
      | _ # r \<Rightarrow> takeWhile (\<lambda>c. c \<noteq> COLON) bs # split_colon n r)"

subsection \<open>Dictionaries\<close>

text \<open>
  A Python \<^verbatim>\<open>dict\<close> keeps its keys in insertion order and the program iterates over
  \<^verbatim>\<open>self.cache.items()\<close>, so a dictionary is an association list: assigning to a key
  that is present replaces the value in place, assigning to a new key appends.
\<close>

fun dict_set :: "'k \<Rightarrow> 'v \<Rightarrow> ('k \<times> 'v) list \<Rightarrow> ('k \<times> 'v) list" where
  "dict_set k v [] = [(k, v)]"
| "dict_set k v ((k', v') # d) =
     (if k' = k then (k, v) # d else (k', v') # dict_set k v d)"

definition dict_del :: "'k \<Rightarrow> ('k \<times> 'v) list \<Rightarrow> ('k \<times> 'v) list" where
  "dict_del k d = filter (\<lambda>(k', v). k' \<noteq> k) d"

subsection \<open>\<^verbatim>\<open>os.path.dirname\<close>\<close>

definition SLASH :: char where
  "SLASH = CHR ''/''"

text \<open>
  \<^verbatim>\<open>posixpath.dirname\<close>: the head is everything up to and including the last slash;
  its trailing slashes are removed unless it consists of slashes only.
\<close>

definition dirname :: "bytes \<Rightarrow> bytes" where
  "dirname p =
     (let head = rev (dropWhile (\<lambda>c. c \<noteq> SLASH) (rev p)) in
      if head \<noteq> [] \<and> (\<exists>c\<in>set head. c \<noteq> SLASH)
      then rev (dropWhile (\<lambda>c. c = SLASH) (rev head))
      else head)"

subsection \<open>The file system\<close>

text \<open>
  The file system maps a path to what is there: a regular file, a directory, or a
  socket as the example of a file that is neither. Every node has a modification time
  (\<^verbatim>\<open>st_mtime_ns\<close>) and, for a regular file, its bytes. Symbolic links and permissions
  are not part of this model.
\<close>

datatype kind = Regular | Directory | Socket

record node =
  kind :: kind
  st_mtime_ns :: int
  data :: bytes

type_synonym fsys = "(bytes \<times> node) list"

definition os_stat :: "fsys \<Rightarrow> bytes \<Rightarrow> error + node" where
  "os_stat fs p = (case map_of fs p of None \<Rightarrow> Inl FileNotFoundError | Some n \<Rightarrow> Inr n)"

definition isfile :: "fsys \<Rightarrow> bytes \<Rightarrow> bool" where
  "isfile fs p = (case map_of fs p of None \<Rightarrow> False | Some n \<Rightarrow> kind n = Regular)"

text \<open>\<^verbatim>\<open>open(p, 'rb')\<close> and reading to the end.\<close>

definition open_rb :: "fsys \<Rightarrow> bytes \<Rightarrow> error + bytes" where
  "open_rb fs p =
     (case map_of fs p of
        None \<Rightarrow> Inl FileNotFoundError
      | Some n \<Rightarrow>
          (case kind n of
             Regular \<Rightarrow> Inr (data n)
           | Directory \<Rightarrow> Inl IsADirectoryError
           | Socket \<Rightarrow> Inl OSError))"

text \<open>\<^verbatim>\<open>open(p, 'wb')\<close>, writing \<open>content\<close> and closing, at clock time \<open>now\<close> (seconds).\<close>

definition write_file :: "fsys \<Rightarrow> bytes \<Rightarrow> int \<Rightarrow> bytes \<Rightarrow> error + fsys" where
  "write_file fs p now content =
     (let n = \<lparr>kind = Regular, st_mtime_ns = now * 1000000000, data = content\<rparr> in
      case map_of fs p of
        Some old \<Rightarrow>
          (case kind old of
             Regular \<Rightarrow> Inr (dict_set p n fs)
           | Directory \<Rightarrow> Inl IsADirectoryError
           | Socket \<Rightarrow> Inl OSError)
      | None \<Rightarrow>
          (case map_of fs (dirname p) of
             None \<Rightarrow> Inl FileNotFoundError
           | Some d \<Rightarrow> if kind d = Directory then Inr (dict_set p n fs) else Inl OSError))"

definition os_unlink :: "fsys \<Rightarrow> bytes \<Rightarrow> error + fsys" where
  "os_unlink fs p =
     (case map_of fs p of
        None \<Rightarrow> Inl FileNotFoundError
      | Some n \<Rightarrow> if kind n = Directory then Inl IsADirectoryError else Inr (dict_del p fs))"

definition os_rmdir :: "fsys \<Rightarrow> bytes \<Rightarrow> error + fsys" where
  "os_rmdir fs d =
     (case map_of fs d of
        None \<Rightarrow> Inl FileNotFoundError
      | Some n \<Rightarrow>
          if kind n \<noteq> Directory then Inl OSError
          else if \<exists>q\<in>set (map fst fs). q \<noteq> d \<and> dirname q = d then Inl OSError
          else Inr (dict_del d fs))"

text \<open>
  What the program takes from its platform: \<^verbatim>\<open>os.path.realpath\<close>, the digest
  computed by \<^verbatim>\<open>hashlib.md5\<close>, and the paths that standard output can show. A path is
  printed as \<^verbatim>\<open>os.fsdecode(path)\<close>; bytes that are not valid in the file system encoding
  become lone surrogates, which standard output refuses with \<^verbatim>\<open>UnicodeEncodeError\<close> when
  its error handler is strict.
\<close>

record env =
  realpath :: "bytes \<Rightarrow> bytes"
  md5 :: "bytes \<Rightarrow> bytes"
  stdout_encodes :: "bytes \<Rightarrow> bool"

section \<open>The program\<close>

subsection \<open>State\<close>

type_synonym entry = "int \<times> bytes"

type_synonym cache = "(bytes \<times> entry) list"

text \<open>A job is a file name and a callback; the callback of this program updates the cache.\<close>

type_synonym job = "bytes \<times> (bytes \<Rightarrow> cache \<Rightarrow> cache)"

text \<open>
  The lines printed on standard output, one constructor for each \<^verbatim>\<open>print\<close> of the
  source (adjacent prints of one report are one message). The formatting of sizes and
  durations is left out.
\<close>

datatype message =
    Warning_msg
  | Hash_file bytes
  | Check_copy bytes
  | Outdated_cache bytes bytes bytes bytes
  | Remove_duplicate bytes "bytes list"
  | Removed_files nat
  | No_file_removed
  | Remove_empty_directory bytes
  | Now_add_remove
  | Invalid_header bytes
  | Cache_is_old int
  | Unknown_answer string
  | Exit_msg
  | Ctrl_c_exit
  | Blank_line
  | Read_cache_file nat
  | Write_cache_file nat
  | Cache_file_doesnt_exist
  | Remove_cache_file

text \<open>The calls that the program makes to the file system, in the order it makes them.\<close>

datatype oscall =
    Call_isfile bytes
  | Call_stat bytes
  | Call_open_rb bytes
  | Call_open_wb bytes
  | Call_unlink bytes
  | Call_rmdir bytes

text \<open>
  The fields of \<^verbatim>\<open>App\<close> that the program uses, together with the world around it:
  the file system, the output and the history of file system calls. The queue holds the
  jobs submitted so far; its bound, which only makes \<^verbatim>\<open>put\<close> wait, is not modelled.
\<close>

record state =
  cache_filename :: bytes
  cache :: cache
  queue :: "job list"
  disk :: fsys
  out :: "message list"
  oscalls :: "oscall list"

text \<open>A call either returns a value or raises; both leave a state behind.\<close>

datatype 'r outcome = Done 'r state | Raise error state

definition print :: "message \<Rightarrow> state \<Rightarrow> state" where
  "print m st = st\<lparr>out := out st @ [m]\<rparr>"

definition called :: "oscall \<Rightarrow> state \<Rightarrow> state" where
  "called c st = st\<lparr>oscalls := oscalls st @ [c]\<rparr>"

subsection \<open>\<^verbatim>\<open>hash_file\<close> and \<^verbatim>\<open>HashThread.run\<close>\<close>

text \<open>
  The loop of \<^verbatim>\<open>hash_file\<close>: \<open>fed\<close> is what has been passed to \<^verbatim>\<open>filehash.update\<close>
  so far, \<open>rest\<close> what is still unread.
\<close>

function read_chunks :: "bytes \<Rightarrow> bytes \<Rightarrow> bytes" where
  "read_chunks fed rest =
     (if take CHUNK_SIZE rest = [] then fed
      else read_chunks (fed @ take CHUNK_SIZE rest) (drop CHUNK_SIZE rest))"
  by pat_completeness auto
termination
  by (relation "measure (\<lambda>(fed, rest). length rest)") (auto simp: CHUNK_SIZE_def)

declare read_chunks.simps [simp del]

definition hash_file :: "env \<Rightarrow> fsys \<Rightarrow> bytes \<Rightarrow> error + bytes" where
  "hash_file env fs filename =
     (case open_rb fs filename of
        Inl e \<Rightarrow> Inl e
      | Inr content \<Rightarrow> Inr (md5 env (read_chunks [] content)))"

text \<open>
  One worker thread, on the items that it takes from the queue in order (\<open>None\<close> is
  the sentinel). It returns at the sentinel, dies with the exception that \<^verbatim>\<open>hash_file\<close>
  raises, since nothing catches it, or waits in \<^verbatim>\<open>queue.get()\<close> when no item is
  left. The result carries the cache and the items that this worker has not taken.
\<close>

datatype thread_end =
    Returned cache "job option list"
  | Died error cache "job option list"
  | Waiting cache

fun run :: "env \<Rightarrow> fsys \<Rightarrow> job option list \<Rightarrow> cache \<Rightarrow> thread_end" where
  "run env fs [] c = Waiting c"
| "run env fs (None # q) c = Returned c q"
| "run env fs (Some (filename, callback) # q) c =
     (case hash_file env fs filename of
        Inl e \<Rightarrow> Died e c q
      | Inr checksum \<Rightarrow> run env fs q (callback checksum c))"

subsection \<open>\<^verbatim>\<open>remove_cache\<close>, \<^verbatim>\<open>check_cache_age\<close>, \<^verbatim>\<open>read_cache\<close>, \<^verbatim>\<open>write_cache\<close>\<close>

definition remove_cache :: "state \<Rightarrow> unit outcome" where
  "remove_cache st =
     (let st1 = called (Call_unlink (cache_filename st)) st in
      case os_unlink (disk st1) (cache_filename st1) of
        Inl e \<Rightarrow>
          if e = FileNotFoundError then Done () (print Cache_file_doesnt_exist st1)
          else Raise e st1
      | Inr fs' \<Rightarrow> Done () (print Remove_cache_file (st1\<lparr>disk := fs'\<rparr>)))"

text \<open>
  What arrives on standard input when the program calls \<^verbatim>\<open>input\<close>: a line, or the
  user's interrupt. Answers are ASCII.
\<close>

datatype input_event = Line string | Ctrl_c

definition lower :: "string \<Rightarrow> string" where
  "lower s =
     map (\<lambda>c. case map_of (zip ''ABCDEFGHIJKLMNOPQRSTUVWXYZ'' ''abcdefghijklmnopqrstuvwxyz'') c of
                 None \<Rightarrow> c
               | Some l \<Rightarrow> l) s"

definition is_str_space :: "char \<Rightarrow> bool" where
  "is_str_space c = (is_space c \<or> (28 \<le> (of_char c :: nat) \<and> (of_char c :: nat) \<le> 31))"

definition str_strip :: "string \<Rightarrow> string" where
  "str_strip s = rev (dropWhile is_str_space (rev (dropWhile is_str_space s)))"

text \<open>
  The \<^verbatim>\<open>while True\<close> loop of \<^verbatim>\<open>check_cache_age\<close>. The result is the value that the
  method returns: \<open>Some True\<close> when the cache file was removed, \<open>Some False\<close> when the old
  cache is to be used. At the end of the input \<^verbatim>\<open>input\<close> raises \<^verbatim>\<open>EOFError\<close>.
\<close>

fun ask_loop :: "state \<Rightarrow> input_event list \<Rightarrow> bool option outcome" where
  "ask_loop st [] = Raise EOFError st"
| "ask_loop st (Ctrl_c # rest) = Raise (SystemExit 0) (print Ctrl_c_exit (print Blank_line st))"
| "ask_loop st (Line a # rest) =
     (let answer = str_strip (lower a) in
      if answer = ''no'' \<or> answer = ''n'' then
        (case remove_cache st of
           Raise e st' \<Rightarrow> Raise e st'
         | Done u st' \<Rightarrow> Done (Some True) (print Blank_line st'))
      else if answer = ''yes'' \<or> answer = ''y'' then Done (Some False) st
      else if answer = [] then Raise (SystemExit 0) (print Exit_msg st)
      else ask_loop (print (Unknown_answer answer) st) rest)"

text \<open>
  \<^verbatim>\<open>datetime.timedelta(seconds=dt)\<close> raises \<^verbatim>\<open>OverflowError\<close> when the number of days
  is beyond 999999999 in magnitude.
\<close>

definition check_cache_age :: "state \<Rightarrow> int \<Rightarrow> int \<Rightarrow> input_event list \<Rightarrow> bool option outcome" where
  "check_cache_age st now ts stdin =
     (let dt = now - ts in
      if dt div 86400 < - 999999999 \<or> 999999999 < dt div 86400 then Raise OverflowError st
      else if dt < MAX_CACHE_AGE then Done None st
      else ask_loop (print (Cache_is_old dt) st) stdin)"

text \<open>
  The \<^verbatim>\<open>for line in fp\<close> loop of \<^verbatim>\<open>read_cache\<close>. A line that does not split into three
  fields fails in the tuple assignment with \<^verbatim>\<open>ValueError\<close>. An error comes with the
  cache as filled so far.
\<close>

fun read_entries :: "bytes list \<Rightarrow> cache \<Rightarrow> error \<times> cache + cache" where
  "read_entries [] c = Inr c"
| "read_entries (line # ls) c =
     (case split_colon 2 (rstrip_nl line) of
        [mtime, checksum, filename] \<Rightarrow>
          (case unhexlify checksum of
             Inl e \<Rightarrow> Inl (e, c)
           | Inr ck \<Rightarrow>
               (case py_int mtime of
                  Inl e \<Rightarrow> Inl (e, c)
                | Inr m \<Rightarrow> read_entries ls (dict_set filename (m, ck) c)))
      | _ \<Rightarrow> Inl (ValueError, c))"

definition read_cache :: "state \<Rightarrow> int \<Rightarrow> input_event list \<Rightarrow> unit outcome" where
  "read_cache st now stdin =
     (let st0 = called (Call_open_rb (cache_filename st)) st in
      case open_rb (disk st0) (cache_filename st0) of
        Inl e \<Rightarrow> if e = FileNotFoundError then Done () st0 else Raise e st0
      | Inr content \<Rightarrow>
          (let (header, ls1) = readline (file_lines content) in
           if header \<noteq> HEADER @ [NL]
           then Raise (SystemExit 1) (print (Invalid_header header) st0)
           else
             (let (line, ls2) = readline ls1 in
              case py_int (rstrip_nl line) of
                Inl e \<Rightarrow> Raise e st0
              | Inr ts \<Rightarrow>
                  (case check_cache_age st0 now ts stdin of
                     Raise e st1 \<Rightarrow> Raise e st1
                   | Done exit st1 \<Rightarrow>
                       if exit = Some True then Done () st1
                       else
                         (case read_entries ls2 (cache st1) of
                            Inl (e, c) \<Rightarrow> Raise e (st1\<lparr>cache := c\<rparr>)
                          | Inr c \<Rightarrow>
                              Done () (print (Read_cache_file (length c))
                                         (st1\<lparr>cache := c\<rparr>)))))))"

text \<open>One record of the cache file, and the whole file as \<^verbatim>\<open>write_cache\<close> writes it.\<close>

definition entry_line :: "bytes \<times> entry \<Rightarrow> bytes" where
  "entry_line item =
     (case item of (filename, mtime, checksum) \<Rightarrow>
        fmt_i mtime @ [COLON] @ hexlify checksum @ [COLON] @ filename @ [NL])"

definition cache_file_content :: "cache \<Rightarrow> int \<Rightarrow> bytes" where
  "cache_file_content c ts = HEADER @ [NL] @ fmt_i ts @ [NL] @ concat (map entry_line c)"

definition write_cache :: "state \<Rightarrow> int \<Rightarrow> unit outcome" where
  "write_cache st now =
     (if cache st = [] then Done () st
      else
        (let st0 = called (Call_open_wb (cache_filename st)) st in
         case write_file (disk st0) (cache_filename st0) now (cache_file_content (cache st0) now) of
           Inl e \<Rightarrow> Raise e st0
         | Inr fs' \<Rightarrow> Done () (print (Write_cache_file (length (cache st0))) (st0\<lparr>disk := fs'\<rparr>))))"

subsection \<open>\<^verbatim>\<open>scan_file\<close>\<close>

text \<open>\<^verbatim>\<open>warn\<close> prints the fixed text \<^verbatim>\<open>WARNING: msg\<close>, whatever its argument.\<close>

definition warn :: "state \<Rightarrow> state" where
  "warn st = print Warning_msg st"

text \<open>The closure \<^verbatim>\<open>write_checksum\<close> of \<^verbatim>\<open>scan_file\<close>, with the variables it captures.\<close>

definition write_checksum :: "bytes \<Rightarrow> int \<Rightarrow> bytes \<Rightarrow> cache \<Rightarrow> cache" where
  "write_checksum path mtime checksum c = dict_set path (mtime, checksum) c"

text \<open>
  \<^verbatim>\<open>scan_file\<close> prints the line \<^verbatim>\<open>Hash ...\<close> with the path before it puts the job in the
  queue: when standard output cannot show the path, the \<^verbatim>\<open>print\<close> raises and no job is
  submitted. The argument of \<^verbatim>\<open>warn\<close> is only formatted, never printed.
\<close>

definition scan_file :: "env \<Rightarrow> state \<Rightarrow> bytes \<Rightarrow> unit outcome" where
  "scan_file env st path0 =
     (let path = realpath env path0 in
      if path = cache_filename st then Done () st
      else if NL \<in> set path then Raise ValueError st
      else
        (let st1 = called (Call_isfile path) st;
             st2 = (if \<not> isfile (disk st1) path then warn st1 else st1);
             st3 = called (Call_stat path) st2 in
         case os_stat (disk st3) path of
           Inl e \<Rightarrow> Raise e st3
         | Inr filestat \<Rightarrow>
             (let mtime = st_mtime_ns filestat in
              if (case map_of (cache st3) path of
                    None \<Rightarrow> False
                  | Some (cache_mtime, checksum) \<Rightarrow> cache_mtime \<ge> mtime)
              then Done () st3
              else if \<not> stdout_encodes env path then Raise UnicodeEncodeError st3
              else Done () ((print (Hash_file path) st3)
                             \<lparr>queue := queue st3 @ [(path, write_checksum path mtime)]\<rparr>))))"

subsection \<open>\<^verbatim>\<open>remove_dir\<close>\<close>

text \<open>
  The first loop of \<^verbatim>\<open>remove_dir\<close>. \<^verbatim>\<open>byhash\<close> is a \<^verbatim>\<open>defaultdict(list)\<close>: a function
  that gives the empty list for a checksum never stored.
\<close>

fun partition_loop ::
  "bytes \<Rightarrow> cache \<Rightarrow> (bytes \<times> bytes) list \<Rightarrow> (bytes \<Rightarrow> bytes list) \<Rightarrow>
   (bytes \<times> bytes) list \<times> (bytes \<Rightarrow> bytes list)" where
  "partition_loop directory [] content byhash = (content, byhash)"
| "partition_loop directory ((filename, mtime, checksum) # items) content byhash =
     (if dirname filename = directory
      then partition_loop directory items (content @ [(filename, checksum)]) byhash
      else partition_loop directory items content
             (byhash(checksum := byhash checksum @ [filename])))"

text \<open>
  The second loop. \<^verbatim>\<open>sys.exit(1)\<close> raises \<^verbatim>\<open>SystemExit\<close>; an exception of \<^verbatim>\<open>hash_file\<close>
  or, other than \<^verbatim>\<open>FileNotFoundError\<close>, of \<^verbatim>\<open>os.unlink\<close> is not caught here.
\<close>

fun check_loop ::
  "env \<Rightarrow> bool \<Rightarrow> (bytes \<Rightarrow> bytes list) \<Rightarrow> (bytes \<times> bytes) list \<Rightarrow> nat \<Rightarrow> state \<Rightarrow>
   nat outcome" where
  "check_loop env remove byhash [] nremoved st = Done nremoved st"
| "check_loop env remove byhash ((filename, checksum) # content) nremoved st =
     (case byhash checksum of
        [] \<Rightarrow> check_loop env remove byhash content nremoved st
      | copy # others \<Rightarrow>
          (let st1 = called (Call_open_rb copy) (print (Check_copy copy) st) in
           case hash_file env (disk st1) copy of
             Inl e \<Rightarrow> Raise e st1
           | Inr copy_checksum \<Rightarrow>
               if copy_checksum \<noteq> checksum
               then Raise (SystemExit 1)
                      (print (Outdated_cache filename checksum copy copy_checksum) st1)
               else
                 (let st2 = print (Remove_duplicate filename (copy # others)) st1 in
                  if remove then
                    (if map_of (cache st2) filename = None then Raise KeyError st2
                     else
                       (let st3 = called (Call_unlink filename)
                                    (st2\<lparr>cache := dict_del filename (cache st2)\<rparr>) in
                        case os_unlink (disk st3) filename of
                          Inl e \<Rightarrow>
                            if e = FileNotFoundError
                            then check_loop env remove byhash content (nremoved + 1) st3
                            else Raise e st3
                        | Inr fs' \<Rightarrow>
                            check_loop env remove byhash content (nremoved + 1)
                              (st3\<lparr>disk := fs'\<rparr>)))
                  else check_loop env remove byhash content (nremoved + 1) st2)))"

definition remove_dir :: "env \<Rightarrow> state \<Rightarrow> bytes \<Rightarrow> bool \<Rightarrow> unit outcome" where
  "remove_dir env st directory0 remove =
     (let directory = realpath env directory0;
          (content, byhash) = partition_loop directory (cache st) [] (\<lambda>checksum. []) in
      case check_loop env remove byhash content 0 st of
        Raise e st1 \<Rightarrow> Raise e st1
      | Done nremoved st1 \<Rightarrow>
          (let st2 = (if nremoved \<noteq> 0 then print (Removed_files nremoved) st1
                      else print No_file_removed st1) in
           if remove then
             (let st3 = called (Call_rmdir directory) st2 in
              case os_rmdir (disk st3) directory of
                Inl e \<Rightarrow> Done () st3
              | Inr fs' \<Rightarrow>
                  Done () (print (Remove_empty_directory directory) (st3\<lparr>disk := fs'\<rparr>)))
           else Done () (print Now_add_remove (print Blank_line st2))))"

subsection \<open>\<^verbatim>\<open>main\<close>\<close>

text \<open>
  \<^verbatim>\<open>main\<close> for the actions \<^verbatim>\<open>remove_dir\<close> and \<^verbatim>\<open>remove_cache\<close>, which run in one thread:
  the workers started by \<^verbatim>\<open>start_threads\<close> get no job, and \<^verbatim>\<open>stop_threads\<close> (in the
  \<^verbatim>\<open>finally\<close> clause) ends them with their sentinels without a change to the state.
  The action \<^verbatim>\<open>scan\<close> runs \<^verbatim>\<open>scan_file\<close> on every file while the workers run the jobs;
  its two parts are \<^const>\<open>scan_file\<close> and \<^const>\<open>run\<close> above. An exception other than
  \<^verbatim>\<open>KeyboardInterrupt\<close> leaves the \<^verbatim>\<open>try\<close> statement through \<^verbatim>\<open>finally\<close> and ends the
  process before \<^verbatim>\<open>write_cache\<close> is reached.
\<close>

datatype action = Remove_dir bool bytes | Remove_cache

definition init_app :: "bytes \<Rightarrow> fsys \<Rightarrow> state" where
  "init_app cache_file fs =
     \<lparr>cache_filename = cache_file, cache = [], queue = [], disk = fs, out = [], oscalls = []\<rparr>"

definition main ::
  "env \<Rightarrow> action \<Rightarrow> bytes \<Rightarrow> fsys \<Rightarrow> int \<Rightarrow> int \<Rightarrow> input_event list \<Rightarrow> unit outcome" where
  "main env args cache_file fs now_start now_end stdin =
     (let st = init_app cache_file fs in
      case args of
        Remove_cache \<Rightarrow>
          (case remove_cache st of
             Raise e st1 \<Rightarrow> Raise e st1
           | Done u st1 \<Rightarrow> Raise (SystemExit 0) st1)
      | Remove_dir remove directory \<Rightarrow>
          (case read_cache st now_start stdin of
             Raise e st1 \<Rightarrow> Raise e st1
           | Done u st1 \<Rightarrow>
               (case remove_dir env st1 directory remove of
                  Raise e st2 \<Rightarrow> Raise e st2
                | Done v st2 \<Rightarrow> write_cache st2 now_end)))"

text \<open>The exit status of the process: that of \<^verbatim>\<open>SystemExit\<close>, 1 for another exception.\<close>

definition exit_status :: "'r outcome \<Rightarrow> int" where
  "exit_status r =
     (case r of
        Done v st \<Rightarrow> 0
      | Raise e st \<Rightarrow> (case e of SystemExit n \<Rightarrow> n | _ \<Rightarrow> 1))"

text \<open>The state in which a call ends, and the paths given to \<^verbatim>\<open>os.unlink\<close> in a history.\<close>

definition final :: "'r outcome \<Rightarrow> state" where
  "final r = (case r of Done v st \<Rightarrow> st | Raise e st \<Rightarrow> st)"

definition unlinked :: "oscall list \<Rightarrow> bytes list" where
  "unlinked cs = concat (map (\<lambda>c. case c of Call_unlink p \<Rightarrow> [p] | _ \<Rightarrow> []) cs)"

section \<open>Example data\<close>

text \<open>A home directory without a cache file, and a cache of two entries.\<close>

definition home_disk :: fsys where
  "home_disk = [(''/h'', \<lparr>kind = Directory, st_mtime_ns = 1, data = []\<rparr>)]"

definition two_entries :: state where
  "two_entries =
     (init_app ''/h/c'' home_disk)
       \<lparr>cache := [(''/d/a:b'', (1700000000123456789, [CHR 0x00, CHR 0xFF, CHR ''a''])),
                  (''/e/x'', (- 5, []))]\<rparr>"


text \<open>
  An environment for the examples: paths are canonical as they come, the digest of a
  file is its content, and standard output shows every path.
\<close>

definition plain_env :: env where
  "plain_env =
     \<lparr>realpath = (\<lambda>p. p), md5 = (\<lambda>content. content), stdout_encodes = (\<lambda>p. True)\<rparr>"

text \<open>A regular file with the given content, and a directory.\<close>

definition regular :: "bytes \<Rightarrow> node" where
  "regular content = \<lparr>kind = Regular, st_mtime_ns = 1, data = content\<rparr>"

definition folder :: node where
  "folder = \<lparr>kind = Directory, st_mtime_ns = 1, data = []\<rparr>"

text \<open>
  A target directory \<^verbatim>\<open>/t\<close> and another directory \<^verbatim>\<open>/o\<close>. The cache knows \<^verbatim>\<open>/t/a\<close> and
  \<^verbatim>\<open>/t/b\<close> with their copies \<^verbatim>\<open>/o/a\<close> and \<^verbatim>\<open>/o/b\<close>, and \<^verbatim>\<open>/t/c\<close> and \<^verbatim>\<open>/t/d\<close>, which
  are copies of each other. The content of \<^verbatim>\<open>/o/b\<close> on the disk is a parameter.
\<close>

definition shelf_cache :: cache where
  "shelf_cache =
     [(''/t/a'', (1, ''A'')), (''/t/b'', (1, ''B'')), (''/o/a'', (1, ''A'')),
      (''/o/b'', (1, ''B'')), (''/t/c'', (1, ''C'')), (''/t/d'', (1, ''C''))]"

definition shelf :: "bytes \<Rightarrow> state" where
  "shelf b =
     (init_app ''/h/c''
        [(''/t'', folder), (''/o'', folder), (''/t/a'', regular ''A''), (''/t/b'', regular ''B''),
         (''/o/a'', regular ''A''), (''/o/b'', regular b), (''/t/c'', regular ''C''),
         (''/t/d'', regular ''C'')])
       \<lparr>cache := shelf_cache\<rparr>"

text \<open>
  The same disk with a home directory, whose cache file was written from that cache at
  time 100.
\<close>

definition home :: "bytes \<Rightarrow> fsys" where
  "home b = disk (shelf b) @ [(''/h'', folder), (''/h/c'', regular (cache_file_content shelf_cache 100))]"


text \<open>A directory with a socket in it.\<close>

definition socket_disk :: fsys where
  "socket_disk = [(''/t'', folder), (''/t/s'', \<lparr>kind = Socket, st_mtime_ns = 7, data = []\<rparr>)]"

section \<open>Properties\<close>

subsection \<open>Hexadecimal and decimal text\<close>

lemma unhexdigit_hexdigit: "d < 16 \<Longrightarrow> unhexdigit (hexdigit d) = Some d"
proof -
  assume "d < 16"
  then have "d \<in> {0,1,2,3,4,5,6,7,8,9,10,11,12,13,14,15}" by simp arith
  then show ?thesis
    by (auto simp: hexdigit_def unhexdigit_def)
qed

lemma nibbles: "(of_char c :: nat) div 16 < 16" "(of_char c :: nat) mod 16 < 16"
proof -
  have "(of_char c :: nat) < 256" by simp
  then show "(of_char c :: nat) div 16 < 16" "(of_char c :: nat) mod 16 < 16" by arith+
qed

lemma unhexlify_hexlify: "unhexlify (hexlify bs) = Inr bs"
proof (induction bs)
  case Nil
  show ?case by (simp add: hexlify_def)
next
  case (Cons c bs)
  have "hexlify (c # bs) = hexdigit (of_char c div 16) # hexdigit (of_char c mod 16) # hexlify bs"
    by (simp add: hexlify_def)
  then show ?case
    using Cons nibbles [of c] by (simp add: unhexdigit_hexdigit)
qed

lemma is_digit_digit: "d < 10 \<Longrightarrow> is_digit (digit d)"
  by (simp add: is_digit_def digit_def)

lemma digit_val_digit: "d < 10 \<Longrightarrow> digit_val (digit d) = d"
  by (simp add: digit_val_def digit_def)

lemma dec_digits_all_digits: "c \<in> set (dec_digits n) \<Longrightarrow> is_digit c"
proof (induction n rule: dec_digits.induct)
  case (1 n)
  show ?case
  proof (cases "n < 10")
    case True
    with "1.prems" show ?thesis
      by (subst (asm) dec_digits.simps) (simp add: is_digit_digit)
  next
    case False
    with "1.prems" "1.IH" show ?thesis
      by (subst (asm) dec_digits.simps) (auto simp: is_digit_digit)
  qed
qed

lemma dec_digits_not_Nil: "dec_digits n \<noteq> []"
  by (subst dec_digits.simps) simp

lemma dec_value_digits:
  "\<forall>c\<in>set cs. is_digit c \<Longrightarrow>
   dec_value acc cs = Some (foldl (\<lambda>a c. 10 * a + digit_val c) acc cs)"
  by (induction cs arbitrary: acc) auto

lemma foldl_dec_digits: "foldl (\<lambda>a c. 10 * a + digit_val c) 0 (dec_digits n) = n"
proof (induction n rule: dec_digits.induct)
  case (1 n)
  show ?case
  proof (cases "n < 10")
    case True
    then show ?thesis
      by (subst dec_digits.simps) (simp add: digit_val_digit)
  next
    case False
    with "1.IH" show ?thesis
      by (subst dec_digits.simps) (simp add: digit_val_digit)
  qed
qed

lemma parse_nat_dec_digits: "parse_nat (dec_digits n) = Some n"
proof (cases "dec_digits n")
  case Nil
  then show ?thesis using dec_digits_not_Nil [of n] by simp
next
  case (Cons c cs)
  have dig: "\<forall>x\<in>set (c # cs). is_digit x"
    using dec_digits_all_digits [of _ n] Cons by auto
  have "foldl (\<lambda>a c. 10 * a + digit_val c) 0 (c # cs) = n"
    using foldl_dec_digits [of n] Cons by simp
  then have "foldl (\<lambda>a c. 10 * a + digit_val c) (digit_val c) cs = n"
    by simp
  with dig Cons show ?thesis
    by (simp add: parse_nat_def dec_value_digits)
qed

lemma is_digit_not_space: "is_digit c \<Longrightarrow> \<not> is_space c"
  by (auto simp: is_digit_def is_space_def)

lemma dropWhile_none: "\<forall>c\<in>set xs. \<not> P c \<Longrightarrow> dropWhile P xs = xs"
  by (cases xs) auto

lemma strip_no_space: "\<forall>c\<in>set bs. \<not> is_space c \<Longrightarrow> strip bs = bs"
proof -
  assume a: "\<forall>c\<in>set bs. \<not> is_space c"
  then have "dropWhile is_space bs = bs"
    by (rule dropWhile_none)
  moreover from a have "dropWhile is_space (rev bs) = rev bs"
    by (intro dropWhile_none) simp
  ultimately show ?thesis by (simp add: strip_def)
qed

lemma py_int_fmt_i: "py_int (fmt_i i) = Inr i"
proof (cases "i < 0")
  case True
  have ns: "\<forall>c\<in>set (CHR ''-'' # dec_digits (nat (- i))). \<not> is_space c"
    using dec_digits_all_digits is_digit_not_space by (auto simp: is_space_def)
  have "strip (fmt_i i) = CHR ''-'' # dec_digits (nat (- i))"
    using True strip_no_space [OF ns] by (simp add: fmt_i_def)
  with True show ?thesis
    by (simp add: py_int_def parse_nat_dec_digits)
next
  case False
  obtain c cs where cs: "dec_digits (nat i) = c # cs"
    using dec_digits_not_Nil [of "nat i"] by (cases "dec_digits (nat i)") auto
  have dc: "is_digit c"
    using dec_digits_all_digits [of c "nat i"] cs by simp
  then have c: "c \<noteq> CHR ''-''" "c \<noteq> CHR ''+''"
    by (auto simp: is_digit_def)
  have ns: "\<forall>c\<in>set (dec_digits (nat i)). \<not> is_space c"
    using dec_digits_all_digits is_digit_not_space by auto
  have "strip (fmt_i i) = c # cs"
    using False strip_no_space [OF ns] cs by (simp add: fmt_i_def)
  moreover have "parse_nat (c # cs) = Some (nat i)"
    using parse_nat_dec_digits [of "nat i"] cs by simp
  ultimately show ?thesis
    using False c by (simp add: py_int_def)
qed

lemma fmt_i_chars: "c \<in> set (fmt_i i) \<Longrightarrow> c = CHR ''-'' \<or> is_digit c"
  by (auto simp: fmt_i_def dec_digits_all_digits split: if_splits)

lemma fmt_i_no_sep: "COLON \<notin> set (fmt_i i)" "NL \<notin> set (fmt_i i)"
  using fmt_i_chars [of COLON i] fmt_i_chars [of NL i]
  by (auto simp: COLON_def NL_def is_digit_def)

lemma hexdigit_no_sep: "d < 16 \<Longrightarrow> hexdigit d \<noteq> COLON \<and> hexdigit d \<noteq> NL"
proof -
  assume "d < 16"
  then have "d \<in> {0,1,2,3,4,5,6,7,8,9,10,11,12,13,14,15}" by simp arith
  then show ?thesis
    by (auto simp: hexdigit_def COLON_def NL_def)
qed

lemma hexlify_no_sep: "COLON \<notin> set (hexlify bs)" "NL \<notin> set (hexlify bs)"
proof -
  have "x \<in> set (hexlify bs) \<Longrightarrow> x \<noteq> COLON \<and> x \<noteq> NL" for x
    using hexdigit_no_sep [OF nibbles(1)] hexdigit_no_sep [OF nibbles(2)]
    by (auto simp: hexlify_def)
  then show "COLON \<notin> set (hexlify bs)" "NL \<notin> set (hexlify bs)"
    by blast+
qed

subsection \<open>Reading back what \<^verbatim>\<open>write_cache\<close> wrote\<close>

lemma file_lines_line:
  "NL \<notin> set l \<Longrightarrow> file_lines (l @ NL # rest) = (l @ [NL]) # file_lines rest"
  by (induction l) auto

lemma rstrip_nl_line: "NL \<notin> set l \<Longrightarrow> rstrip_nl (l @ [NL]) = l"
proof -
  assume "NL \<notin> set l"
  then have "dropWhile (\<lambda>c. c = NL) (rev l) = rev l"
    by (intro dropWhile_none) auto
  then show ?thesis by (simp add: rstrip_nl_def)
qed

lemma split_colon_field:
  "COLON \<notin> set a \<Longrightarrow> split_colon (Suc n) (a @ COLON # r) = a # split_colon n r"
proof -
  assume a: "COLON \<notin> set a"
  then have "dropWhile (\<lambda>c. c \<noteq> COLON) (a @ COLON # r) = COLON # r"
    by (induction a) auto
  moreover from a have "takeWhile (\<lambda>c. c \<noteq> COLON) (a @ COLON # r) = a"
    by (induction a) auto
  ultimately show ?thesis by simp
qed

lemma split_colon_entry:
  "split_colon 2 (fmt_i m @ COLON # hexlify ck @ COLON # f) = [fmt_i m, hexlify ck, f]"
proof -
  have "split_colon (Suc (Suc 0)) (fmt_i m @ COLON # (hexlify ck @ COLON # f))
        = fmt_i m # split_colon (Suc 0) (hexlify ck @ COLON # f)"
    by (rule split_colon_field [OF fmt_i_no_sep(1)])
  moreover have "split_colon (Suc 0) (hexlify ck @ COLON # f) = hexlify ck # split_colon 0 f"
    by (rule split_colon_field [OF hexlify_no_sep(1)])
  ultimately show ?thesis by (simp add: numeral_2_eq_2)
qed

lemma entry_line_body:
  "entry_line (f, m, ck) = (fmt_i m @ [COLON] @ hexlify ck @ [COLON] @ f) @ [NL]"
  by (simp add: entry_line_def)

lemma entry_body_no_NL:
  "NL \<notin> set f \<Longrightarrow> NL \<notin> set (fmt_i m @ [COLON] @ hexlify ck @ [COLON] @ f)"
  using fmt_i_no_sep(2) [of m] hexlify_no_sep(2) [of ck] by (simp add: COLON_def NL_def)

lemma file_lines_entries:
  "\<forall>p\<in>set (map fst c). NL \<notin> set p \<Longrightarrow> file_lines (concat (map entry_line c)) = map entry_line c"
proof (induction c)
  case Nil
  show ?case by simp
next
  case (Cons item c)
  obtain f m ck where item: "item = (f, m, ck)" by (cases item) auto
  with Cons.prems have "NL \<notin> set f" by simp
  then have b: "NL \<notin> set (fmt_i m @ [COLON] @ hexlify ck @ [COLON] @ f)"
    by (rule entry_body_no_NL)
  have "file_lines (entry_line item @ concat (map entry_line c))
        = entry_line item # file_lines (concat (map entry_line c))"
    unfolding item entry_line_body using file_lines_line [OF b] by simp
  with Cons show ?case by simp
qed

lemma dict_set_new: "k \<notin> set (map fst d) \<Longrightarrow> dict_set k v d = d @ [(k, v)]"
  by (induction d) auto

lemma read_entries_lines:
  "\<forall>p\<in>set (map fst c). NL \<notin> set p \<Longrightarrow> distinct (map fst (acc @ c)) \<Longrightarrow>
   read_entries (map entry_line c) acc = Inr (acc @ c)"
proof (induction c arbitrary: acc)
  case Nil
  show ?case by simp
next
  case (Cons item c)
  obtain f m ck where item: "item = (f, m, ck)" by (cases item) auto
  with Cons.prems have nl: "NL \<notin> set f" by simp
  have "rstrip_nl (entry_line item) = fmt_i m @ [COLON] @ hexlify ck @ [COLON] @ f"
    unfolding item entry_line_body by (rule rstrip_nl_line [OF entry_body_no_NL [OF nl]])
  then have line: "rstrip_nl (entry_line item) = fmt_i m @ COLON # hexlify ck @ COLON # f"
    by simp
  from Cons.prems item have new: "f \<notin> set (map fst acc)" by auto
  have step: "read_entries (entry_line item # map entry_line c) acc
              = read_entries (map entry_line c) (acc @ [(f, m, ck)])"
    by (simp add: line split_colon_entry unhexlify_hexlify py_int_fmt_i dict_set_new [OF new])
  have "read_entries (map entry_line c) (acc @ [(f, m, ck)]) = Inr ((acc @ [(f, m, ck)]) @ c)"
    using Cons.prems item by (intro Cons.IH) auto
  with step item show ?case by simp
qed

lemma map_of_dict_set: "map_of (dict_set k v d) k = Some v"
  by (induction d) auto

lemma write_file_read_back:
  "write_file fs p now content = Inr fs' \<Longrightarrow> open_rb fs' p = Inr content"
  by (auto simp: write_file_def open_rb_def map_of_dict_set Let_def
      split: option.splits kind.splits if_splits)

lemma ask_loop_keep:
  "ask_loop st evs = Done k st' \<Longrightarrow> k \<noteq> Some True \<Longrightarrow>
   cache st' = cache st \<and> disk st' = disk st \<and> cache_filename st' = cache_filename st"
proof (induction st evs rule: ask_loop.induct)
  case (1 st)
  then show ?case by simp
next
  case (2 st rest)
  then show ?case by simp
next
  case (3 st a rest)
  then show ?case
    by (auto simp: Let_def print_def split: if_splits outcome.splits)
qed

lemma check_cache_age_keep:
  "check_cache_age st now ts stdin = Done k st' \<Longrightarrow> k \<noteq> Some True \<Longrightarrow>
   cache st' = cache st \<and> disk st' = disk st \<and> cache_filename st' = cache_filename st"
  using ask_loop_keep [of "print (Cache_is_old (now - ts)) st" stdin k st']
  by (auto simp: check_cache_age_def Let_def print_def split: if_splits)

lemma file_lines_cache_file:
  "\<forall>p\<in>set (map fst c). NL \<notin> set p \<Longrightarrow>
   file_lines (cache_file_content c ts) = (HEADER @ [NL]) # (fmt_i ts @ [NL]) # map entry_line c"
proof -
  assume a: "\<forall>p\<in>set (map fst c). NL \<notin> set p"
  have h: "NL \<notin> set HEADER" by (simp add: HEADER_def NL_def)
  have "file_lines (HEADER @ NL # (fmt_i ts @ NL # concat (map entry_line c)))
        = (HEADER @ [NL]) # (fmt_i ts @ [NL]) # file_lines (concat (map entry_line c))"
    by (simp only: file_lines_line [OF h] file_lines_line [OF fmt_i_no_sep(2)])
  with a show ?thesis by (simp add: cache_file_content_def file_lines_entries)
qed

subsection \<open>The cache file\<close>

text \<open>
  C9. When the cache is empty, \<^verbatim>\<open>write_cache\<close> returns at once: it opens no file, the
  file system with the cache file of an earlier run stays as it is, and nothing is
  printed; the call ends in the very state in which it began.
\<close>

theorem write_cache_empty_writes_nothing:
  "cache st = [] \<Longrightarrow> write_cache st now = Done () st"
  by (simp add: write_cache_def)

theorem write_cache_empty_writes_nothing_witness:
  "cache (init_app ''/c'' [(''/c'', \<lparr>kind = Regular, st_mtime_ns = 5, data = ''old''\<rparr>)]) = []
   \<and> write_cache (init_app ''/c'' [(''/c'', \<lparr>kind = Regular, st_mtime_ns = 5, data = ''old''\<rparr>)]) 9
       = Done () (init_app ''/c'' [(''/c'', \<lparr>kind = Regular, st_mtime_ns = 5, data = ''old''\<rparr>)])"
  using write_cache_empty_writes_nothing
    [of "init_app ''/c'' [(''/c'', \<lparr>kind = Regular, st_mtime_ns = 5, data = ''old''\<rparr>)]" 9]
  by (simp add: init_app_def)

text \<open>
  C5. Writing a cache and reading it back gives the same cache. The cache is not empty,
  its keys are distinct (it is a dictionary) and no path contains a newline byte; colons
  in a path are allowed. \<^verbatim>\<open>write_cache\<close> succeeds at time \<open>now_w\<close>; a process that starts
  with an empty cache on the resulting file system then calls \<^verbatim>\<open>read_cache\<close> at time
  \<open>now_r\<close>, and \<^verbatim>\<open>check_cache_age\<close> lets the cache through (it is younger than an hour, or
  the user answers yes). The cache read has the same paths in the same order, each with
  the same modification time and the same checksum.
\<close>

theorem cache_round_trip:
  assumes ne: "cache st \<noteq> []"
    and dist: "distinct (map fst (cache st))"
    and nl: "\<forall>p\<in>set (map fst (cache st)). NL \<notin> set p"
    and wr: "write_cache st now_w = Done () st1"
    and fresh: "cache sr = []" "disk sr = disk st1" "cache_filename sr = cache_filename st"
    and age: "check_cache_age (called (Call_open_rb (cache_filename sr)) sr) now_r now_w stdin
              = Done keep s1"
    and keep: "keep \<noteq> Some True"
  shows "\<exists>st3. read_cache sr now_r stdin = Done () st3 \<and> cache st3 = cache st"
proof -
  from wr ne obtain fs' where
    w: "write_file (disk st) (cache_filename st) now_w (cache_file_content (cache st) now_w) = Inr fs'"
    and d1: "disk st1 = fs'"
    by (auto simp: write_cache_def Let_def called_def print_def split: sum.splits)
  have op: "open_rb (disk sr) (cache_filename sr) = Inr (cache_file_content (cache st) now_w)"
    using write_file_read_back [OF w] d1 fresh by simp
  have ls: "file_lines (cache_file_content (cache st) now_w)
            = (HEADER @ [NL]) # (fmt_i now_w @ [NL]) # map entry_line (cache st)"
    by (rule file_lines_cache_file [OF nl])
  have ts: "py_int (rstrip_nl (fmt_i now_w @ [NL])) = Inr now_w"
    by (simp add: rstrip_nl_line [OF fmt_i_no_sep(2)] py_int_fmt_i)
  have c1: "cache s1 = []"
    using check_cache_age_keep [OF age keep] fresh by (simp add: called_def)
  have en: "read_entries (map entry_line (cache st)) (cache s1) = Inr (cache st)"
    using read_entries_lines [of "cache st" "[]"] nl dist c1 by simp
  show ?thesis
    using keep
    by (simp add: read_cache_def Let_def called_def op [unfolded called_def] ls readline_def ts
        age [unfolded called_def] en print_def)
qed


theorem cache_round_trip_witness:
  "cache two_entries \<noteq> [] \<and>
   (\<exists>st3. read_cache (init_app ''/h/c'' (disk (final (write_cache two_entries 100)))) 7300
             [Line ''maybe'', Line '' YES '']
           = Done () st3 \<and> cache st3 = cache two_entries)"
proof -
  let ?sr = "init_app ''/h/c'' (disk (final (write_cache two_entries 100)))"
  have ne: "cache two_entries \<noteq> []"
    by (simp add: two_entries_def)
  have dist: "distinct (map fst (cache two_entries))"
    by (simp add: two_entries_def)
  have nl: "\<forall>p\<in>set (map fst (cache two_entries)). NL \<notin> set p"
    by (simp add: two_entries_def NL_def)
  have wr: "write_cache two_entries 100 = Done () (final (write_cache two_entries 100))"
    by (simp add: write_cache_def two_entries_def init_app_def home_disk_def called_def
        write_file_def dirname_def SLASH_def final_def Let_def)
  have fresh: "cache ?sr = []" "disk ?sr = disk (final (write_cache two_entries 100))"
    "cache_filename ?sr = cache_filename two_entries"
    by (simp_all add: init_app_def two_entries_def)
  have age: "check_cache_age (called (Call_open_rb (cache_filename ?sr)) ?sr) 7300 100
               [Line ''maybe'', Line '' YES '']
             = Done (Some False)
                 (final (check_cache_age (called (Call_open_rb (cache_filename ?sr)) ?sr) 7300 100
                    [Line ''maybe'', Line '' YES '']))"
    by (simp add: check_cache_age_def MAX_CACHE_AGE_def final_def Let_def
        str_strip_def lower_def is_str_space_def is_space_def)
  have keep: "Some False \<noteq> Some True" by simp
  from cache_round_trip [OF ne dist nl wr fresh age keep] ne show ?thesis
    by simp
qed

subsection \<open>\<^verbatim>\<open>remove_dir\<close>\<close>

lemma partition_loop_eq:
  "partition_loop d items content byhash =
     (content @ map (\<lambda>(f, m, ck). (f, ck)) (filter (\<lambda>(f, m, ck). dirname f = d) items),
      (\<lambda>c. byhash c @ map fst (filter (\<lambda>(f, m, ck). dirname f \<noteq> d \<and> ck = c) items)))"
proof (induction items arbitrary: content byhash)
  case Nil
  show ?case by simp
next
  case (Cons item items)
  obtain f m ck where item: "item = (f, m, ck)" by (cases item) auto
  show ?case
    unfolding item by (auto simp: Cons.IH fun_eq_iff)
qed

lemma unlinked_append [simp]: "unlinked (xs @ ys) = unlinked xs @ unlinked ys"
  by (simp add: unlinked_def)

lemma unlinked_Nil [simp]: "unlinked [] = []"
  by (simp add: unlinked_def)

lemma unlinked_Cons [simp]:
  "unlinked (c # cs) = (case c of Call_unlink p \<Rightarrow> [p] | _ \<Rightarrow> []) @ unlinked cs"
  by (simp add: unlinked_def)

lemma state_simps [simp]:
  "oscalls (print m st) = oscalls st" "disk (print m st) = disk st" "cache (print m st) = cache st"
  "cache_filename (print m st) = cache_filename st" "queue (print m st) = queue st"
  "out (print m st) = out st @ [m]"
  "oscalls (called c st) = oscalls st @ [c]" "disk (called c st) = disk st"
  "cache (called c st) = cache st" "cache_filename (called c st) = cache_filename st"
  "queue (called c st) = queue st" "out (called c st) = out st"
  by (simp_all add: print_def called_def)

lemma final_simps [simp]: "final (Done v st) = st" "final (Raise e st) = st"
  by (simp_all add: final_def)

lemma check_loop_unlinked:
  "x \<in> set (unlinked (oscalls (final (check_loop env remove byhash content n st)))) \<Longrightarrow>
   x \<in> set (unlinked (oscalls st)) \<or> x \<in> fst ` set content"
proof (induction content arbitrary: n st remove)
  case Nil
  then show ?case by simp
next
  case (Cons item content)
  obtain f ck where item: "item = (f, ck)" by (cases item) auto
  from Cons.prems show ?case
    unfolding item
    by (auto simp: Let_def split: list.splits sum.splits if_splits dest!: Cons.IH)
qed




lemma read_chunks_all: "read_chunks fed rest = fed @ rest"
proof (induction fed rest rule: read_chunks.induct)
  case (1 fed rest)
  show ?case
  proof (cases "take CHUNK_SIZE rest = []")
    case True
    then have "rest = []" by (simp add: CHUNK_SIZE_def)
    with True show ?thesis by (subst read_chunks.simps) simp
  next
    case False
    with "1.IH" show ?thesis by (subst read_chunks.simps) simp
  qed
qed

lemma hash_file_regular:
  "map_of fs p = Some n \<Longrightarrow> kind n = Regular \<Longrightarrow> hash_file env fs p = Inr (md5 env (data n))"
  by (simp add: hash_file_def open_rb_def read_chunks_all)

lemmas shelf_defs = shelf_def shelf_cache_def init_app_def plain_env_def regular_def folder_def
  remove_dir_def dirname_def SLASH_def hash_file_def open_rb_def read_chunks_all os_unlink_def
  os_rmdir_def dict_del_def Let_def

text \<open>
  C8. Every path that \<^verbatim>\<open>remove_dir\<close> passes to \<^verbatim>\<open>os.unlink\<close> is a key of the cache whose
  \<^verbatim>\<open>os.path.dirname\<close> is the canonical target directory, whatever the cache holds and
  however the run ends.
\<close>

theorem remove_dir_unlinks_only_target_entries:
  "set (unlinked (oscalls (final (remove_dir env st directory remove))))
     \<subseteq> set (unlinked (oscalls st))
         \<union> {f \<in> set (map fst (cache st)). dirname f = realpath env directory}"
proof
  fix x
  let ?d = "realpath env directory"
  let ?content = "map (\<lambda>(f, m, ck). (f, ck)) (filter (\<lambda>(f, m, ck). dirname f = ?d) (cache st))"
  let ?byhash = "\<lambda>c. map fst (filter (\<lambda>(f, m, ck). dirname f \<noteq> ?d \<and> ck = c) (cache st))"
  let ?r = "check_loop env remove ?byhash ?content 0 st"
  assume "x \<in> set (unlinked (oscalls (final (remove_dir env st directory remove))))"
  then have "x \<in> set (unlinked (oscalls (final ?r)))"
    by (auto simp: remove_dir_def partition_loop_eq Let_def split: outcome.splits sum.splits if_splits)
  then have "x \<in> set (unlinked (oscalls st)) \<or> x \<in> fst ` set ?content"
    by (rule check_loop_unlinked)
  moreover have "fst ` set ?content \<subseteq> {f \<in> set (map fst (cache st)). dirname f = ?d}"
    by force
  ultimately show "x \<in> set (unlinked (oscalls st))
         \<union> {f \<in> set (map fst (cache st)). dirname f = realpath env directory}"
    by blast
qed

theorem remove_dir_unlinks_only_target_entries_witness:
  "unlinked (oscalls (final (remove_dir plain_env (shelf ''B'') ''/t'' True))) = [''/t/a'', ''/t/b'']
   \<and> set (unlinked (oscalls (final (remove_dir plain_env (shelf ''B'') ''/t'' True))))
       \<subseteq> set (unlinked (oscalls (shelf ''B'')))
           \<union> {f \<in> set (map fst (cache (shelf ''B''))). dirname f = realpath plain_env ''/t''}"
proof -
  have "unlinked (oscalls (final (remove_dir plain_env (shelf ''B'') ''/t'' True)))
        = [''/t/a'', ''/t/b'']"
    by (simp add: shelf_defs)
  with remove_dir_unlinks_only_target_entries [of plain_env "shelf ''B''" "''/t''" True]
  show ?thesis by simp
qed







lemma map_of_dict_del: "g \<noteq> f \<Longrightarrow> map_of (dict_del g d) f = map_of d f"
  by (induction d) (auto simp: dict_del_def)

lemma check_loop_keeps_entry:
  "\<forall>(g, c)\<in>set content. g = f \<longrightarrow> byhash c = [] \<Longrightarrow>
   map_of (cache (final (check_loop env remove byhash content n st))) f = map_of (cache st) f"
proof (induction content arbitrary: n st remove)
  case Nil
  show ?case by simp
next
  case (Cons item content)
  obtain g c where item: "item = (g, c)" by (cases item) auto
  from Cons.prems have rest: "\<forall>(g, c)\<in>set content. g = f \<longrightarrow> byhash c = []"
    by simp
  note IH = Cons.IH [OF rest]
  show ?case
  proof (cases "byhash c")
    case Nil
    then show ?thesis unfolding item by (simp add: IH)
  next
    case (Cons copy others)
    with Cons.prems item have gf: "g \<noteq> f" by auto
    show ?thesis
      unfolding item using Cons gf
      by (simp add: IH Let_def map_of_dict_del split: sum.split)
  qed
qed

lemma check_loop_never_unlinks:
  "\<forall>(g, c)\<in>set content. g = f \<longrightarrow> byhash c = [] \<Longrightarrow>
   f \<in> set (unlinked (oscalls (final (check_loop env remove byhash content n st)))) \<Longrightarrow>
   f \<in> set (unlinked (oscalls st))"
proof (induction content arbitrary: n st remove)
  case Nil
  then show ?case by simp
next
  case (Cons item content)
  obtain g c where item: "item = (g, c)" by (cases item) auto
  from Cons.prems have rest: "\<forall>(g, c)\<in>set content. g = f \<longrightarrow> byhash c = []"
    by simp
  note IH = Cons.IH [OF rest]
  show ?case
  proof (cases "byhash c")
    case Nil
    with Cons.prems(2) show ?thesis unfolding item by (auto dest!: IH)
  next
    case (Cons copy others)
    with Cons.prems(1) item have gf: "g \<noteq> f" by auto
    from Cons.prems(2) show ?thesis
      unfolding item using Cons gf
      by (auto simp: Let_def split: sum.splits if_splits dest!: IH)
  qed
qed

lemma check_loop_never_reports:
  "\<forall>(g, c)\<in>set content. g = f \<longrightarrow> byhash c = [] \<Longrightarrow>
   Remove_duplicate f cs \<in> set (out (final (check_loop env remove byhash content n st))) \<Longrightarrow>
   Remove_duplicate f cs \<in> set (out st)"
proof (induction content arbitrary: n st remove)
  case Nil
  then show ?case by simp
next
  case (Cons item content)
  obtain g c where item: "item = (g, c)" by (cases item) auto
  from Cons.prems have rest: "\<forall>(g, c)\<in>set content. g = f \<longrightarrow> byhash c = []"
    by simp
  note IH = Cons.IH [OF rest]
  show ?case
  proof (cases "byhash c")
    case Nil
    with Cons.prems(2) show ?thesis unfolding item by (auto dest!: IH)
  next
    case (Cons copy others)
    with Cons.prems(1) item have gf: "g \<noteq> f" by auto
    from Cons.prems(2) show ?thesis
      unfolding item using Cons gf
      by (auto simp: Let_def split: sum.splits if_splits dest!: IH)
  qed
qed


lemma check_loop_keeps_file:
  "\<forall>(g, c)\<in>set content. g = f \<longrightarrow> byhash c = [] \<Longrightarrow>
   map_of (disk (final (check_loop env remove byhash content n st))) f = map_of (disk st) f"
proof (induction content arbitrary: n st remove)
  case Nil
  show ?case by simp
next
  case (Cons item content)
  obtain g c where item: "item = (g, c)" by (cases item) auto
  from Cons.prems have rest: "\<forall>(g, c)\<in>set content. g = f \<longrightarrow> byhash c = []"
    by simp
  note IH = Cons.IH [OF rest]
  show ?case
  proof (cases "byhash c")
    case Nil
    then show ?thesis unfolding item by (simp add: IH)
  next
    case (Cons copy others)
    with Cons.prems item have gf: "g \<noteq> f" by auto
    show ?thesis
      unfolding item using Cons gf
      by (auto simp: IH Let_def os_unlink_def map_of_dict_del split: sum.split option.splits if_splits)
  qed
qed

text \<open>
  C10. The groups of \<^verbatim>\<open>byhash\<close> hold paths outside the target directory only. So a file
  of the target directory all of whose copies in the cache are in the target directory
  too has an empty group: \<^verbatim>\<open>remove_dir\<close> keeps its cache entry, never passes it to
  \<^verbatim>\<open>os.unlink\<close>, does not report it as a duplicate and leaves it on the disk, also with
  \<^verbatim>\<open>--remove\<close>. The cache is a dictionary: its keys are distinct.
\<close>

theorem target_copies_are_no_duplicates:
  assumes dist: "distinct (map fst (cache st))"
    and entry: "(f, m, ck) \<in> set (cache st)"
    and target: "dirname f = realpath env directory"
    and only: "\<forall>(g, m', ck')\<in>set (cache st). ck' = ck \<longrightarrow> dirname g = realpath env directory"
  shows "(\<forall>c. \<forall>g\<in>set (snd (partition_loop (realpath env directory) (cache st) [] (\<lambda>c. [])) c).
            dirname g \<noteq> realpath env directory)
    \<and> map_of (cache (final (remove_dir env st directory remove))) f = Some (m, ck)
    \<and> (f \<in> set (unlinked (oscalls (final (remove_dir env st directory remove))))
         \<longrightarrow> f \<in> set (unlinked (oscalls st)))
    \<and> (\<forall>cs. Remove_duplicate f cs \<in> set (out (final (remove_dir env st directory remove)))
         \<longrightarrow> Remove_duplicate f cs \<in> set (out st))
    \<and> (f \<noteq> realpath env directory
         \<longrightarrow> map_of (disk (final (remove_dir env st directory remove))) f = map_of (disk st) f)"
proof -
  let ?d = "realpath env directory"
  let ?content = "map (\<lambda>(f, m, ck). (f, ck)) (filter (\<lambda>(f, m, ck). dirname f = ?d) (cache st))"
  let ?byhash = "\<lambda>c. map fst (filter (\<lambda>(f, m, ck). dirname f \<noteq> ?d \<and> ck = c) (cache st))"
  let ?r = "check_loop env remove ?byhash ?content 0 st"
  let ?rd = "remove_dir env st directory remove"
  have groups: "\<forall>c. \<forall>g\<in>set (snd (partition_loop ?d (cache st) [] (\<lambda>c. [])) c). dirname g \<noteq> ?d"
    by (auto simp: partition_loop_eq)
  have none: "?byhash ck = []"
    using only by (auto simp: filter_empty_conv)
  have skip: "\<forall>(g, c)\<in>set ?content. g = f \<longrightarrow> ?byhash c = []"
  proof -
    have "?byhash c = []" if "(f, c) \<in> set ?content" for c
    proof -
      from that obtain m' where "(f, m', c) \<in> set (cache st)" by auto
      with entry dist have "(m', c) = (m, ck)"
        by (meson eq_key_imp_eq_value)
      with none show ?thesis by simp
    qed
    then show ?thesis by blast
  qed
  have rd_cache: "cache (final ?rd) = cache (final ?r)"
    by (simp add: remove_dir_def partition_loop_eq Let_def split: outcome.split sum.split)
  have rd_unl: "unlinked (oscalls (final ?rd)) = unlinked (oscalls (final ?r))"
    by (simp add: remove_dir_def partition_loop_eq Let_def split: outcome.split sum.split)
  have rd_out: "Remove_duplicate f cs \<in> set (out (final ?rd)) \<Longrightarrow>
                Remove_duplicate f cs \<in> set (out (final ?r))" for cs
    by (auto simp: remove_dir_def partition_loop_eq Let_def split: outcome.splits sum.splits if_splits)
  have rd_disk: "f \<noteq> ?d \<Longrightarrow> map_of (disk (final ?rd)) f = map_of (disk (final ?r)) f"
    by (auto simp: remove_dir_def partition_loop_eq Let_def os_rmdir_def map_of_dict_del
        split: outcome.splits sum.splits option.splits if_splits)
  have "map_of (cache st) f = Some (m, ck)"
    using dist entry by simp
  then have c: "map_of (cache (final ?rd)) f = Some (m, ck)"
    using check_loop_keeps_entry [OF skip] rd_cache by simp
  have u: "f \<in> set (unlinked (oscalls (final ?rd))) \<longrightarrow> f \<in> set (unlinked (oscalls st))"
    using check_loop_never_unlinks [OF skip] rd_unl by simp
  have o: "\<forall>cs. Remove_duplicate f cs \<in> set (out (final ?rd))
             \<longrightarrow> Remove_duplicate f cs \<in> set (out st)"
    using check_loop_never_reports [OF skip] rd_out by blast
  have k: "f \<noteq> ?d \<longrightarrow> map_of (disk (final ?rd)) f = map_of (disk st) f"
    using check_loop_keeps_file [OF skip] rd_disk by simp
  from groups c u o k show ?thesis by blast
qed


theorem target_copies_are_no_duplicates_witness:
  "distinct (map fst (cache (shelf ''B'')))
   \<and> (''/t/c'', 1, ''C'') \<in> set (cache (shelf ''B''))
   \<and> (''/t/d'', 1, ''C'') \<in> set (cache (shelf ''B''))
   \<and> dirname ''/t/c'' = realpath plain_env ''/t''
   \<and> map_of (cache (final (remove_dir plain_env (shelf ''B'') ''/t'' True))) ''/t/c'' = Some (1, ''C'')
   \<and> ''/t/c'' \<notin> set (unlinked (oscalls (final (remove_dir plain_env (shelf ''B'') ''/t'' True))))
   \<and> map_of (disk (final (remove_dir plain_env (shelf ''B'') ''/t'' True))) ''/t/c''
       = Some (regular ''C'')"
proof -
  have dist: "distinct (map fst (cache (shelf ''B'')))"
    by (simp add: shelf_def shelf_cache_def)
  have entry: "(''/t/c'', 1, ''C'') \<in> set (cache (shelf ''B''))"
    and other: "(''/t/d'', 1, ''C'') \<in> set (cache (shelf ''B''))"
    by (simp_all add: shelf_def shelf_cache_def)
  have target: "dirname ''/t/c'' = realpath plain_env ''/t''"
    by (simp add: dirname_def SLASH_def plain_env_def)
  have only: "\<forall>(g, m', ck')\<in>set (cache (shelf ''B'')).
                ck' = ''C'' \<longrightarrow> dirname g = realpath plain_env ''/t''"
    by (simp add: shelf_def shelf_cache_def dirname_def SLASH_def plain_env_def)
  have start: "unlinked (oscalls (shelf ''B'')) = []"
    "map_of (disk (shelf ''B'')) ''/t/c'' = Some (regular ''C'')"
    "''/t/c'' \<noteq> realpath plain_env ''/t''"
    by (simp_all add: shelf_def init_app_def plain_env_def)
  from target_copies_are_no_duplicates [OF dist entry target only, of True] start
    dist entry other target
  show ?thesis by simp
qed

subsection \<open>\<^verbatim>\<open>main\<close>\<close>

lemma read_cache_of_written:
  assumes op: "open_rb (disk st) (cache_filename st) = Inr (cache_file_content c ts)"
    and dist: "distinct (map fst c)"
    and nl: "\<forall>p\<in>set (map fst c). NL \<notin> set p"
    and empty: "cache st = []"
    and young: "now - ts < MAX_CACHE_AGE" "- 999999999 \<le> (now - ts) div 86400"
  shows "read_cache st now stdin =
           Done () (print (Read_cache_file (length c))
                      ((called (Call_open_rb (cache_filename st)) st)\<lparr>cache := c\<rparr>))"
proof -
  have ls: "file_lines (cache_file_content c ts)
            = (HEADER @ [NL]) # (fmt_i ts @ [NL]) # map entry_line c"
    by (rule file_lines_cache_file [OF nl])
  have ts: "py_int (rstrip_nl (fmt_i ts @ [NL])) = Inr ts"
    by (simp add: rstrip_nl_line [OF fmt_i_no_sep(2)] py_int_fmt_i)
  have age: "check_cache_age (called (Call_open_rb (cache_filename st)) st) now ts stdin
             = Done None (called (Call_open_rb (cache_filename st)) st)"
    using young by (simp add: check_cache_age_def Let_def MAX_CACHE_AGE_def)
  have en: "read_entries (map entry_line c) [] = Inr c"
    using read_entries_lines [of c "[]"] nl dist by simp
  show ?thesis
    using op
    by (simp add: read_cache_def Let_def ls readline_def ts age en empty)
qed

lemma ask_loop_no_write:
  "\<forall>p. Call_open_wb p \<notin> set (oscalls st) \<Longrightarrow>
   \<forall>p. Call_open_wb p \<notin> set (oscalls (final (ask_loop st evs)))"
proof (induction st evs rule: ask_loop.induct)
  case (1 st)
  then show ?case by simp
next
  case (2 st rest)
  then show ?case by simp
next
  case (3 st a rest)
  then show ?case
    by (auto simp: Let_def remove_cache_def split: sum.splits if_splits outcome.splits)
qed

lemma read_cache_no_write:
  assumes "\<forall>p. Call_open_wb p \<notin> set (oscalls st)"
  shows "\<forall>p. Call_open_wb p \<notin> set (oscalls (final (read_cache st now stdin)))"
proof -
  have a: "\<forall>p. Call_open_wb p \<notin> set (oscalls (final (check_cache_age s now ts stdin)))"
    if "\<forall>p. Call_open_wb p \<notin> set (oscalls s)" for s ts
    using ask_loop_no_write [of "print (Cache_is_old (now - ts)) s" stdin] that
    by (simp add: check_cache_age_def Let_def)
  have b: "\<forall>p. Call_open_wb p \<notin> set (oscalls (called (Call_open_rb (cache_filename st)) st))"
    using assms by simp
  show ?thesis
    using b a [OF b]
    apply (simp add: read_cache_def Let_def split: sum.split prod.split outcome.split)
    apply (intro allI impI conjI)
    apply (metis final_simps)+
    done
qed

lemma check_loop_no_write:
  "Call_open_wb q \<in> set (oscalls (final (check_loop env remove byhash content n st))) \<Longrightarrow>
   Call_open_wb q \<in> set (oscalls st)"
proof (induction content arbitrary: n st remove)
  case Nil
  then show ?case by simp
next
  case (Cons item content)
  obtain f ck where item: "item = (f, ck)" by (cases item) auto
  from Cons.prems show ?case
    unfolding item
    by (auto simp: Let_def split: list.splits sum.splits if_splits dest!: Cons.IH)
qed

lemma remove_dir_no_write:
  assumes "Call_open_wb q \<in> set (oscalls (final (remove_dir env st directory remove)))"
  shows "Call_open_wb q \<in> set (oscalls st)"
proof -
  let ?d = "realpath env directory"
  let ?content = "map (\<lambda>(f, m, ck). (f, ck)) (filter (\<lambda>(f, m, ck). dirname f = ?d) (cache st))"
  let ?byhash = "\<lambda>c. map fst (filter (\<lambda>(f, m, ck). dirname f \<noteq> ?d \<and> ck = c) (cache st))"
  let ?r = "check_loop env remove ?byhash ?content 0 st"
  from assms have "Call_open_wb q \<in> set (oscalls (final ?r))"
    by (auto simp: remove_dir_def partition_loop_eq Let_def
        split: outcome.splits sum.splits if_splits)
  then show ?thesis by (rule check_loop_no_write)
qed

lemma home_cache_file:
  "open_rb (home b) ''/h/c'' = Inr (cache_file_content shelf_cache 100)"
  by (simp add: home_def shelf_def init_app_def open_rb_def regular_def)

lemma read_cache_home:
  "read_cache (init_app ''/h/c'' (home b)) 160 [] =
     Done () (print (Read_cache_file 6)
                ((called (Call_open_rb ''/h/c'') (init_app ''/h/c'' (home b)))\<lparr>cache := shelf_cache\<rparr>))"
proof -
  have "read_cache (init_app ''/h/c'' (home b)) 160 [] =
     Done () (print (Read_cache_file (length shelf_cache))
                ((called (Call_open_rb (cache_filename (init_app ''/h/c'' (home b))))
                    (init_app ''/h/c'' (home b)))\<lparr>cache := shelf_cache\<rparr>))"
    by (rule read_cache_of_written [where ts = 100])
      (simp_all add: init_app_def home_cache_file shelf_cache_def NL_def MAX_CACHE_AGE_def)
  then show ?thesis by (simp add: init_app_def shelf_cache_def)
qed



lemmas home_defs = home_def print_def called_def shelf_defs

lemma remove_dir_home:
  "remove_dir plain_env
     (print (Read_cache_file 6)
        ((called (Call_open_rb ''/h/c'') (init_app ''/h/c'' (home ''X'')))\<lparr>cache := shelf_cache\<rparr>))
     ''/t'' True
   = Raise (SystemExit 1)
       (final (remove_dir plain_env
          (print (Read_cache_file 6)
             ((called (Call_open_rb ''/h/c'') (init_app ''/h/c'' (home ''X'')))\<lparr>cache := shelf_cache\<rparr>))
          ''/t'' True))"
  by (simp add: home_defs)


text \<open>
  C3, as the code has it. When \<^verbatim>\<open>remove_dir\<close> ends with \<^verbatim>\<open>sys.exit(1)\<close>, so does \<^verbatim>\<open>main\<close>,
  in the state that \<^verbatim>\<open>remove_dir\<close> left: the exit status is 1, \<^verbatim>\<open>write_cache\<close> is not
  reached, and no file has been opened for writing in the whole run.
\<close>

theorem main_exits_without_write_cache:
  assumes rd: "read_cache (init_app cache_file fs) now_start stdin = Done () st1"
    and rm: "remove_dir env st1 directory remove = Raise (SystemExit 1) st2"
  shows "main env (Remove_dir remove directory) cache_file fs now_start now_end stdin
           = Raise (SystemExit 1) st2
    \<and> exit_status (main env (Remove_dir remove directory) cache_file fs now_start now_end stdin) = 1
    \<and> (\<forall>p. Call_open_wb p \<notin> set (oscalls st2))"
proof -
  have m: "main env (Remove_dir remove directory) cache_file fs now_start now_end stdin
           = Raise (SystemExit 1) st2"
    by (simp add: main_def rd rm)
  have "\<forall>p. Call_open_wb p \<notin> set (oscalls (init_app cache_file fs))"
    by (simp add: init_app_def)
  then have "\<forall>p. Call_open_wb p \<notin> set (oscalls (final (read_cache (init_app cache_file fs) now_start stdin)))"
    by (rule read_cache_no_write)
  then have "\<forall>p. Call_open_wb p \<notin> set (oscalls st1)"
    by (simp add: rd)
  then have "\<forall>p. Call_open_wb p \<notin> set (oscalls st2)"
    using remove_dir_no_write [of _ env st1 directory remove] rm by auto
  with m show ?thesis by (simp add: exit_status_def)
qed

theorem main_exits_without_write_cache_witness:
  "main plain_env (Remove_dir True ''/t'') ''/h/c'' (home ''X'') 160 170 []
     = Raise (SystemExit 1)
         (final (main plain_env (Remove_dir True ''/t'') ''/h/c'' (home ''X'') 160 170 []))
   \<and> exit_status (main plain_env (Remove_dir True ''/t'') ''/h/c'' (home ''X'') 160 170 []) = 1
   \<and> (\<forall>p. Call_open_wb p \<notin> set (oscalls
          (final (main plain_env (Remove_dir True ''/t'') ''/h/c'' (home ''X'') 160 170 []))))"
proof -
  obtain st2 where rm: "remove_dir plain_env
     (print (Read_cache_file 6)
        ((called (Call_open_rb ''/h/c'') (init_app ''/h/c'' (home ''X'')))\<lparr>cache := shelf_cache\<rparr>))
     ''/t'' True = Raise (SystemExit 1) st2"
    by (rule that [OF remove_dir_home])
  from main_exits_without_write_cache [OF read_cache_home rm, of 170]
  show ?thesis by (simp add: exit_status_def)
qed

text \<open>
  C3, as stated, fails: the run below ends with status 1 after \<^verbatim>\<open>/t/a\<close> was deleted and
  dropped from the cache in memory, and the cache file still has the six entries written
  at time 100, which is not what \<^verbatim>\<open>write_cache\<close> would write at exit.
\<close>

theorem main_leaves_old_cache_file:
  "exit_status (main plain_env (Remove_dir True ''/t'') ''/h/c'' (home ''X'') 160 170 []) = 1
   \<and> cache (final (main plain_env (Remove_dir True ''/t'') ''/h/c'' (home ''X'') 160 170 []))
       = [(''/t/b'', (1, ''B'')), (''/o/a'', (1, ''A'')), (''/o/b'', (1, ''B'')),
          (''/t/c'', (1, ''C'')), (''/t/d'', (1, ''C''))]
   \<and> open_rb (disk (final (main plain_env (Remove_dir True ''/t'') ''/h/c'' (home ''X'') 160 170 [])))
         ''/h/c''
       = Inr (cache_file_content shelf_cache 100)
   \<and> cache_file_content shelf_cache 100
       \<noteq> cache_file_content
            (cache (final (main plain_env (Remove_dir True ''/t'') ''/h/c'' (home ''X'') 160 170 [])))
            170"
proof -
  let ?m = "main plain_env (Remove_dir True ''/t'') ''/h/c'' (home ''X'') 160 170 []"
  let ?st1 = "print (Read_cache_file 6)
        ((called (Call_open_rb ''/h/c'') (init_app ''/h/c'' (home ''X'')))\<lparr>cache := shelf_cache\<rparr>)"
  obtain st2 where rm: "remove_dir plain_env ?st1 ''/t'' True = Raise (SystemExit 1) st2"
    by (rule that [OF remove_dir_home])
  have m: "?m = Raise (SystemExit 1) st2"
    by (simp add: main_def Let_def read_cache_home rm)
  have st2: "st2 = final (remove_dir plain_env ?st1 ''/t'' True)"
    by (simp add: rm)
  have e: "exit_status ?m = 1"
    by (simp add: m exit_status_def)
  have c: "cache (final ?m) = [(''/t/b'', (1, ''B'')), (''/o/a'', (1, ''A'')), (''/o/b'', (1, ''B'')),
          (''/t/c'', (1, ''C'')), (''/t/d'', (1, ''C''))]"
    unfolding m final_simps st2 by (simp add: home_defs)
  have d: "open_rb (disk (final ?m)) ''/h/c'' = Inr (cache_file_content shelf_cache 100)"
    unfolding m final_simps st2 by (simp add: home_defs)
  have "length (file_lines (cache_file_content shelf_cache 100))
        \<noteq> length (file_lines (cache_file_content (cache (final ?m)) 170))"
    unfolding c by (simp add: file_lines_cache_file shelf_cache_def NL_def)
  then have n: "cache_file_content shelf_cache 100 \<noteq> cache_file_content (cache (final ?m)) 170"
    by auto
  from e c d n show ?thesis by simp
qed

subsection \<open>\<^verbatim>\<open>scan_file\<close>\<close>


lemmas scan_defs = scan_file_def isfile_def os_stat_def warn_def print_def called_def Let_def
  init_app_def plain_env_def home_def shelf_def regular_def folder_def NL_def



text \<open>
  C7, as the code has it. A canonical path with a newline byte, other than the path of
  the cache file, makes \<^verbatim>\<open>scan_file\<close> raise \<^verbatim>\<open>ValueError\<close> in the state in which it was
  called: before \<^verbatim>\<open>isfile\<close> and \<^verbatim>\<open>stat\<close>, with the cache and the queue as they were. In
  every case the call ends in the state in which it began, so that such a path is never
  recorded.
\<close>

theorem scan_file_newline:
  assumes "NL \<in> set (realpath env path0)"
  shows "(realpath env path0 \<noteq> cache_filename st \<longrightarrow> scan_file env st path0 = Raise ValueError st)
    \<and> final (scan_file env st path0) = st"
  using assms by (simp add: scan_file_def Let_def)

theorem scan_file_newline_witness:
  "NL \<in> set (realpath plain_env (''/t/x'' @ [NL]))
   \<and> scan_file plain_env (shelf ''B'') (''/t/x'' @ [NL]) = Raise ValueError (shelf ''B'')
   \<and> final (scan_file plain_env (shelf ''B'') (''/t/x'' @ [NL])) = shelf ''B''"
proof -
  have a: "NL \<in> set (realpath plain_env (''/t/x'' @ [NL]))"
    by (simp add: plain_env_def)
  have b: "realpath plain_env (''/t/x'' @ [NL]) \<noteq> cache_filename (shelf ''B'')"
    by (simp add: plain_env_def shelf_def init_app_def)
  from scan_file_newline [OF a, of "shelf ''B''"] a b show ?thesis by simp
qed

text \<open>
  C7, as stated, fails when the path of the cache file itself has a newline byte: the
  test for the cache file comes first, and \<^verbatim>\<open>scan_file\<close> returns without an error.
\<close>

theorem scan_file_newline_in_cache_file_name:
  "NL \<in> set (realpath plain_env (''/h'' @ NL # ''/c''))
   \<and> scan_file plain_env (init_app (''/h'' @ NL # ''/c'') []) (''/h'' @ NL # ''/c'')
       = Done () (init_app (''/h'' @ NL # ''/c'') [])"
  by (simp add: scan_file_def plain_env_def init_app_def)

text \<open>
  C4. \<^verbatim>\<open>scan_file\<close> on a socket: \<^verbatim>\<open>isfile\<close> is false and the warning is printed, but the
  method goes on: it calls \<^verbatim>\<open>os.stat\<close> and submits a hashing job for the socket.
\<close>

theorem scan_file_hashes_non_regular_file:
  "\<not> isfile socket_disk ''/t/s''
   \<and> oscalls (final (scan_file plain_env (init_app ''/h/c'' socket_disk) ''/t/s''))
       = [Call_isfile ''/t/s'', Call_stat ''/t/s'']
   \<and> out (final (scan_file plain_env (init_app ''/h/c'' socket_disk) ''/t/s''))
       = [Warning_msg, Hash_file ''/t/s'']
   \<and> queue (final (scan_file plain_env (init_app ''/h/c'' socket_disk) ''/t/s''))
       = [(''/t/s'', write_checksum ''/t/s'' 7)]"
  by (simp add: scan_defs socket_disk_def)

subsection \<open>\<^verbatim>\<open>HashThread.run\<close>\<close>

text \<open>
  C2, as the code has it. When the jobs before it have succeeded and \<^verbatim>\<open>hash_file\<close>
  raises on the file of a job, the worker dies with that exception at this job: the
  callback of the job is not called, and the items after it are not taken by this worker.
\<close>

theorem run_dies_at_unreadable_file:
  assumes ok: "run env fs (pre @ [None]) c = Returned c1 []"
    and fail: "hash_file env fs filename = Inl e"
  shows "run env fs (pre @ Some (filename, callback) # post) c = Died e c1 post"
  using ok
proof (induction pre arbitrary: c)
  case Nil
  then show ?case using fail by simp
next
  case (Cons j pre)
  show ?case
  proof (cases j)
    case None
    with Cons.prems show ?thesis by simp
  next
    case (Some job)
    obtain f cb where job: "job = (f, cb)" by (cases job) auto
    show ?thesis
    proof (cases "hash_file env fs f")
      case (Inl e')
      with Cons.prems Some job show ?thesis by simp
    next
      case (Inr checksum)
      with Cons.prems Some job have "run env fs (pre @ [None]) (cb checksum c) = Returned c1 []"
        by simp
      then have "run env fs (pre @ Some (filename, callback) # post) (cb checksum c) = Died e c1 post"
        by (rule Cons.IH)
      with Inr Some job show ?thesis by simp
    qed
  qed
qed


theorem run_dies_at_unreadable_file_witness:
  "run plain_env (disk (shelf ''B''))
     ([Some (''/t/a'', write_checksum ''/t/a'' 1)]
      @ Some (''/t/gone'', write_checksum ''/t/gone'' 1)
      # [Some (''/t/b'', write_checksum ''/t/b'' 1), None]) []
   = Died FileNotFoundError [(''/t/a'', (1, ''A''))]
       [Some (''/t/b'', write_checksum ''/t/b'' 1), None]"
proof -
  have ok: "run plain_env (disk (shelf ''B'')) ([Some (''/t/a'', write_checksum ''/t/a'' 1)] @ [None]) []
            = Returned [(''/t/a'', (1, ''A''))] []"
    by (simp add: shelf_defs write_checksum_def)
  have fail: "hash_file plain_env (disk (shelf ''B'')) ''/t/gone'' = Inl FileNotFoundError"
    by (simp add: shelf_defs)
  show ?thesis
    by (rule run_dies_at_unreadable_file [OF ok fail])
qed

text \<open>
  C2, as stated, fails: the first job is for a file that is not there, and the worker
  ends with \<^verbatim>\<open>FileNotFoundError\<close>, leaving the job for \<^verbatim>\<open>/t/a\<close> in the queue and the cache
  empty.
\<close>

theorem run_stops_at_unreadable_file:
  "hash_file plain_env (disk (shelf ''B'')) ''/t/gone'' = Inl FileNotFoundError
   \<and> run plain_env (disk (shelf ''B''))
        [Some (''/t/gone'', write_checksum ''/t/gone'' 1),
         Some (''/t/a'', write_checksum ''/t/a'' 1), None] []
       = Died FileNotFoundError [] [Some (''/t/a'', write_checksum ''/t/a'' 1), None]"
  by (simp add: shelf_defs)

end
